theory Spec2Isabelle
  imports Complex_Main "HOL-Library.Word" "HOL-Library.Sublist" "HOL-Library.Monad_Syntax"
begin

section \<open>JavaScript numbers and typed-array stores\<close>

text \<open>
  A JavaScript number is NaN, an infinity or a finite value. The finite values are modelled
  as rationals: every product and quotient formed by the sample conversions below is exactly
  representable (a 32-bit float times a 15-bit or 16-bit integer fits the 53-bit mantissa of a
  double, and a 16-bit integer divided by \<open>2^15\<close> fits a 32-bit float), so no rounding is
  lost by the exact model. The sign of zero is not modelled.
\<close>

datatype jsnum = NaN | NegInf | PosInf | Fin rat

text \<open>\<open>Math.min\<close> and \<open>Math.max\<close>: NaN if an argument is NaN.\<close>

fun Math_min :: "jsnum \<Rightarrow> jsnum \<Rightarrow> jsnum" where
  "Math_min NaN y = NaN"
| "Math_min x NaN = NaN"
| "Math_min NegInf y = NegInf"
| "Math_min x NegInf = NegInf"
| "Math_min PosInf y = y"
| "Math_min x PosInf = x"
| "Math_min (Fin a) (Fin b) = Fin (min a b)"

fun Math_max :: "jsnum \<Rightarrow> jsnum \<Rightarrow> jsnum" where
  "Math_max NaN y = NaN"
| "Math_max x NaN = NaN"
| "Math_max PosInf y = PosInf"
| "Math_max x PosInf = PosInf"
| "Math_max NegInf y = y"
| "Math_max x NegInf = x"
| "Math_max (Fin a) (Fin b) = Fin (max a b)"

text \<open>The comparison \<open>x < y\<close>: false if an operand is NaN.\<close>

fun js_less :: "jsnum \<Rightarrow> jsnum \<Rightarrow> bool" where
  "js_less NaN y = False"
| "js_less x NaN = False"
| "js_less (Fin a) (Fin b) = (a < b)"
| "js_less NegInf NegInf = False"
| "js_less NegInf y = True"
| "js_less x NegInf = False"
| "js_less PosInf y = False"
| "js_less x PosInf = True"

text \<open>The product \<open>x * y\<close>: an infinity times zero is NaN.\<close>

fun js_times :: "jsnum \<Rightarrow> jsnum \<Rightarrow> jsnum" where
  "js_times NaN y = NaN"
| "js_times x NaN = NaN"
| "js_times (Fin a) (Fin b) = Fin (a * b)"
| "js_times x y =
     (if x = Fin 0 \<or> y = Fin 0 then NaN
      else if js_less x (Fin 0) = js_less y (Fin 0) then PosInf else NegInf)"

text \<open>
  Storing a number into an \<open>Int16Array\<close> element applies \<open>ToInt16\<close>: NaN and the infinities
  become 0, a finite value is truncated towards zero and reduced modulo \<open>2^16\<close> into the
  signed range. \<open>word_of_int\<close> is that reduction.
\<close>

fun js_trunc :: "jsnum \<Rightarrow> int" where
  "js_trunc (Fin a) = (if a < 0 then \<lceil>a\<rceil> else \<lfloor>a\<rfloor>)"
| "js_trunc x = 0"

definition ToInt16 :: "jsnum \<Rightarrow> 16 word" where
  "ToInt16 v = word_of_int (js_trunc v)"

section \<open>Sample conversions of \<open>useVoiceStream.js\<close>\<close>

text \<open>
  \<^verbatim>\<open>let s = Math.max(-1, Math.min(1, float32[i]));
  out[i] = s < 0 ? s * 0x8000 : s * 0x7fff;\<close>
  \<open>scale_sample\<close> is the value of the right-hand side, before it is stored.
\<close>

definition scale_sample :: "jsnum \<Rightarrow> jsnum" where
  "scale_sample x =
     (let s = Math_max (Fin (- 1)) (Math_min (Fin 1) x)
      in if js_less s (Fin 0) then js_times s (Fin 0x8000) else js_times s (Fin 0x7fff))"

definition floatToInt16 :: "jsnum list \<Rightarrow> 16 word list" where
  "floatToInt16 float32 = map (\<lambda>x. ToInt16 (scale_sample x)) float32"

definition int16ToFloat32 :: "16 word list \<Rightarrow> jsnum list" where
  "int16ToFloat32 int16 = map (\<lambda>w. Fin (of_int (sint w) / 0x8000)) int16"

section \<open>The hook \<open>useVoiceStream\<close> (\<open>useVoiceStream.js\<close>)\<close>

definition SAMPLE_RATE :: nat where
  "SAMPLE_RATE = 16000"

definition FRAME_SAMPLES :: nat where
  "FRAME_SAMPLES = 320"

text \<open>The frame duration in milliseconds (\<open>frame_size_ms: 20\<close> in the start message).\<close>

definition FRAME_MS :: nat where
  "FRAME_MS = 20"

definition PREBUFFER_FRAMES :: nat where
  "PREBUFFER_FRAMES = 6"

text \<open>
  What a handler reads from the browser when it runs: the \<open>readyState\<close> of the socket that
  \<open>wsRef\<close> points to, and the clock and sample rate of the audio context that \<open>ctxRef\<close>
  points to (a positive rate).
\<close>

datatype readyState = CONNECTING | OPEN | CLOSING | CLOSED

record env =
  ws_readyState :: readyState
  ctx_currentTime :: rat
  ctx_sampleRate :: rat

text \<open>The two callbacks that \<open>scheduleLoop\<close> hands to \<open>setTimeout\<close>.\<close>

datatype timer = IdleCheck | LoopTick

text \<open>The calls that \<open>stop\<close> makes on the browser objects.\<close>

datatype call = WsClose | ProcDisconnect | SourceDisconnect | TracksStop | CtxClose

text \<open>
  The state of the hook: its refs and its \<open>status\<close> state variable, and what it has done
  to the outside so far: the frames sent over the socket (\<open>ws_sent\<close>), the buffers started on
  the audio context with their start times (\<open>started\<close>), the pending timeouts in the order
  they were set (\<open>timers\<close>; all have the same delay of 20 ms), and the release calls made
  by \<open>stop\<close> (\<open>calls\<close>). A ref holds \<open>None\<close> for \<open>null\<close>.
\<close>

record hook =
  manualStopRef :: bool
  status :: string
  previewUrl :: string
  wsRef :: "unit option"
  ctxRef :: "unit option"
  streamRef :: "unit option"
  sourceRef :: "unit option"
  procRef :: "unit option"
  accumRef :: "jsnum list"
  recvQueueRef :: "16 word list list"
  nextPlayTimeRef :: rat
  isPlayingRef :: bool
  enhancedChunksRef :: "16 word list list"
  ws_sent :: "16 word list list"
  started :: "(jsnum list \<times> rat) list"
  timers :: "timer list"
  calls :: "call list"

definition resetBuffers :: "hook \<Rightarrow> hook" where
  "resetBuffers st =
     st\<lparr>accumRef := [], recvQueueRef := [], nextPlayTimeRef := 0, isPlayingRef := False,
        enhancedChunksRef := [], previewUrl := ''''\<rparr>"

subsection \<open>Capture: \<open>processor.onaudioprocess\<close>\<close>

text \<open>
  \<^verbatim>\<open>while (accum.length >= FRAME_SAMPLES) {
    const frame = accum.splice(0, FRAME_SAMPLES);
    const pcm16 = floatToInt16(frame);
    sock.send(pcm16.buffer);
  }\<close>
\<close>

function send_frames :: "hook \<Rightarrow> hook" where
  "send_frames st =
     (if FRAME_SAMPLES \<le> length (accumRef st) then
        let frame = take FRAME_SAMPLES (accumRef st);
            st = st\<lparr>accumRef := drop FRAME_SAMPLES (accumRef st)\<rparr>;
            pcm16 = floatToInt16 frame
        in send_frames (st\<lparr>ws_sent := ws_sent st @ [pcm16]\<rparr>)
      else st)"
  by pat_completeness auto
termination
  by (relation "measure (\<lambda>st. length (accumRef st))") (auto simp: FRAME_SAMPLES_def)

declare send_frames.simps [simp del]

text \<open>
  The handler returns at once unless the socket exists and is open; otherwise it appends the
  input samples to the accumulator and sends every complete frame.
\<close>

definition onaudioprocess :: "env \<Rightarrow> jsnum list \<Rightarrow> hook \<Rightarrow> hook" where
  "onaudioprocess e input st =
     (if wsRef st = None \<or> ws_readyState e \<noteq> OPEN then st
      else send_frames (st\<lparr>accumRef := accumRef st @ input\<rparr>))"

subsection \<open>Playback: \<open>enqueue\<close> and \<open>scheduleLoop\<close>\<close>

text \<open>
  The loop of \<open>scheduleLoop\<close>: it shifts chunks off the receive queue while the queue is not
  empty and fewer than 10 have been scheduled; an empty chunk is dropped without being
  scheduled; any other chunk is converted, started at \<open>nextPlayTimeRef\<close> (moved up to
  10 ms from now if it lags) and \<open>nextPlayTimeRef\<close> advances by the buffer's duration.
\<close>

function schedule_while :: "env \<Rightarrow> nat \<Rightarrow> hook \<Rightarrow> hook" where
  "schedule_while e scheduled st =
     (if recvQueueRef st \<noteq> [] \<and> scheduled < 10 then
        let pcm16 = hd (recvQueueRef st);
            st = st\<lparr>recvQueueRef := tl (recvQueueRef st)\<rparr>
        in if pcm16 = [] then schedule_while e scheduled st
           else
             let f32 = int16ToFloat32 pcm16;
                 duration = of_nat (length f32) / ctx_sampleRate e;
                 st = (if nextPlayTimeRef st < ctx_currentTime e + 1 / 100
                       then st\<lparr>nextPlayTimeRef := ctx_currentTime e + 1 / 100\<rparr> else st);
                 st = st\<lparr>started := started st @ [(f32, nextPlayTimeRef st)]\<rparr>;
                 st = st\<lparr>nextPlayTimeRef := nextPlayTimeRef st + duration\<rparr>
             in schedule_while e (scheduled + 1) st
      else st)"
  by pat_completeness auto
termination
  by (relation "measure (\<lambda>(e, scheduled, st). length (recvQueueRef st))") auto

declare schedule_while.simps [simp del]

definition scheduleLoop :: "env \<Rightarrow> hook \<Rightarrow> hook" where
  "scheduleLoop e st =
     (if ctxRef st = None then st
      else
        let st = schedule_while e 0 st
        in if recvQueueRef st = [] then st\<lparr>timers := timers st @ [IdleCheck]\<rparr>
           else st\<lparr>timers := timers st @ [LoopTick]\<rparr>)"

text \<open>A timeout set by \<open>scheduleLoop\<close> runs its callback.\<close>

fun timer_fires :: "env \<Rightarrow> timer \<Rightarrow> hook \<Rightarrow> hook" where
  "timer_fires e IdleCheck st =
     (if recvQueueRef st = [] then st\<lparr>isPlayingRef := False\<rparr> else scheduleLoop e st)"
| "timer_fires e LoopTick st = scheduleLoop e st"

definition enqueue :: "env \<Rightarrow> 16 word list \<Rightarrow> hook \<Rightarrow> hook" where
  "enqueue e pcm16 st =
     (let st = st\<lparr>recvQueueRef := recvQueueRef st @ [pcm16]\<rparr>;
          st = st\<lparr>enhancedChunksRef := enhancedChunksRef st @ [pcm16]\<rparr>
      in if \<not> isPlayingRef st \<and> PREBUFFER_FRAMES \<le> length (recvQueueRef st) then
           if ctxRef st = None then st
           else scheduleLoop e (st\<lparr>isPlayingRef := True,
                                     nextPlayTimeRef := ctx_currentTime e + 5 / 100\<rparr>)
         else st)"

subsection \<open>\<open>stop\<close>\<close>

text \<open>
  Each release call is made only on a ref that is not \<open>null\<close> (\<open>?.\<close>) and sits in its own
  \<open>try { } catch {}\<close>, so a call that throws changes nothing of what follows: the model
  records the call and goes on.
\<close>

definition stop :: "hook \<Rightarrow> hook" where
  "stop st =
     (let st = st\<lparr>manualStopRef := True\<rparr>;
          st = (if wsRef st \<noteq> None then st\<lparr>calls := calls st @ [WsClose]\<rparr> else st);
          st = (if procRef st \<noteq> None then st\<lparr>calls := calls st @ [ProcDisconnect]\<rparr> else st);
          st = (if sourceRef st \<noteq> None then st\<lparr>calls := calls st @ [SourceDisconnect]\<rparr> else st);
          st = (if streamRef st \<noteq> None then st\<lparr>calls := calls st @ [TracksStop]\<rparr> else st);
          st = (if ctxRef st \<noteq> None then st\<lparr>calls := calls st @ [CtxClose]\<rparr> else st)
      in st\<lparr>wsRef := None, procRef := None, sourceRef := None, streamRef := None,
            ctxRef := None, isPlayingRef := False, status := ''idle''\<rparr>)"

subsection \<open>Runs of the hook\<close>

text \<open>
  What can happen to a running hook: the script processor delivers a block of samples, a
  chunk received from the server is enqueued, the oldest pending timeout fires, or the user
  stops the stream. Each event comes with what the browser objects show at that moment.
\<close>

datatype event = AudioProcess "jsnum list" | Enqueue "16 word list" | Timeout | Stop

fun step :: "hook \<Rightarrow> env \<times> event \<Rightarrow> hook" where
  "step st (e, AudioProcess input) = onaudioprocess e input st"
| "step st (e, Enqueue pcm16) = enqueue e pcm16 st"
| "step st (e, Timeout) =
     (case timers st of [] \<Rightarrow> st | t # ts \<Rightarrow> timer_fires e t (st\<lparr>timers := ts\<rparr>))"
| "step st (e, Stop) = stop st"

definition run :: "hook \<Rightarrow> (env \<times> event) list \<Rightarrow> hook" where
  "run st evs = foldl step st evs"

text \<open>The samples that reached the accumulator during a run, in arrival order.\<close>

fun pushed :: "hook \<Rightarrow> (env \<times> event) list \<Rightarrow> jsnum list" where
  "pushed st [] = []"
| "pushed st ((e, ev) # evs) =
     (case ev of
        AudioProcess input \<Rightarrow>
          if wsRef st = None \<or> ws_readyState e \<noteq> OPEN then [] else input
      | _ \<Rightarrow> [])
     @ pushed (step st (e, ev)) evs"


text \<open>
  The hook once \<open>start\<close> has run and the socket has opened: every ref is set, the buffers
  are as \<open>resetBuffers\<close> leaves them, nothing has been sent, started or scheduled yet.
\<close>

definition running_hook :: hook where
  "running_hook =
     \<lparr>manualStopRef = False, status = ''running'', previewUrl = '''',
      wsRef = Some (), ctxRef = Some (), streamRef = Some (), sourceRef = Some (),
      procRef = Some (), accumRef = [], recvQueueRef = [], nextPlayTimeRef = 0,
      isPlayingRef = False, enhancedChunksRef = [], ws_sent = [], started = [],
      timers = [], calls = []\<rparr>"

text \<open>The browser at time \<open>t\<close>, with the socket in state \<open>rs\<close> and a 16 kHz audio context.\<close>

definition browser :: "readyState \<Rightarrow> rat \<Rightarrow> env" where
  "browser rs t = \<lparr>ws_readyState = rs, ctx_currentTime = t, ctx_sampleRate = 16000\<rparr>"

subsection \<open>Start times\<close>

text \<open>
  The buffers started so far have strictly increasing start times, all of them before
  \<open>nextPlayTimeRef\<close>.
\<close>

definition scheduled_in_order :: "hook \<Rightarrow> bool" where
  "scheduled_in_order st \<longleftrightarrow>
     sorted_wrt (<) (map snd (started st))
     \<and> (\<forall>t \<in> set (map snd (started st)). t < nextPlayTimeRef st)"





section \<open>Byte buffers and \<open>DataView\<close> stores\<close>

text \<open>
  An \<open>ArrayBuffer\<close> is a list of bytes. A \<open>DataView\<close> store converts its value to the
  width of the field (modulo \<open>2^8\<close>, \<open>2^16\<close> or \<open>2^32\<close>; \<open>of_nat\<close> into a byte takes the
  value modulo 256), lays it out little-endian (all stores of the code pass \<open>true\<close>) and
  throws a \<open>RangeError\<close>, here \<open>None\<close>, if the field does not lie within the buffer.
\<close>

type_synonym bytes = "8 word list"

definition le16 :: "nat \<Rightarrow> bytes" where
  "le16 v = [of_nat v, of_nat (v div 256)]"

definition le32 :: "nat \<Rightarrow> bytes" where
  "le32 v = [of_nat v, of_nat (v div 256), of_nat (v div 65536), of_nat (v div 16777216)]"

definition store :: "nat \<Rightarrow> bytes \<Rightarrow> bytes \<Rightarrow> bytes option" where
  "store off bs buf =
     (if off + length bs \<le> length buf
      then Some (take off buf @ bs @ drop (off + length bs) buf) else None)"

definition setUint8 :: "nat \<Rightarrow> nat \<Rightarrow> bytes \<Rightarrow> bytes option" where
  "setUint8 off v buf = store off [of_nat v] buf"

definition setUint16 :: "nat \<Rightarrow> nat \<Rightarrow> bytes \<Rightarrow> bytes option" where
  "setUint16 off v buf = store off (le16 v) buf"

definition setUint32 :: "nat \<Rightarrow> nat \<Rightarrow> bytes \<Rightarrow> bytes option" where
  "setUint32 off v buf = store off (le32 v) buf"

text \<open>A signed 16-bit sample is stored as its two's-complement bit pattern.\<close>

definition setInt16 :: "nat \<Rightarrow> 16 word \<Rightarrow> bytes \<Rightarrow> bytes option" where
  "setInt16 off w buf = store off (le16 (unat w)) buf"

text \<open>The little-endian reads of a \<open>DataView\<close>, used to say what a buffer records.\<close>

definition getUint16 :: "nat \<Rightarrow> bytes \<Rightarrow> nat" where
  "getUint16 off buf = unat (buf ! off) + 256 * unat (buf ! (off + 1))"

definition getUint32 :: "nat \<Rightarrow> bytes \<Rightarrow> nat" where
  "getUint32 off buf =
     unat (buf ! off) + 256 * unat (buf ! (off + 1)) + 65536 * unat (buf ! (off + 2))
     + 16777216 * unat (buf ! (off + 3))"

definition getInt16 :: "nat \<Rightarrow> bytes \<Rightarrow> 16 word" where
  "getInt16 off buf = of_nat (getUint16 off buf)"

section \<open>\<open>pcm16ToWavBlob\<close>\<close>

text \<open>
  \<^verbatim>\<open>function writeStr(offset, str) {
    for (let i = 0; i < str.length; i++) view.setUint8(offset + i, str.charCodeAt(i));
  }\<close>
\<close>

fun writeStr :: "nat \<Rightarrow> string \<Rightarrow> bytes \<Rightarrow> bytes option" where
  "writeStr offset [] view = Some view"
| "writeStr offset (c # str) view =
     setUint8 offset (of_char c) view \<bind> writeStr (offset + 1) str"

text \<open>
  \<^verbatim>\<open>let off = 44;
  for (let i = 0; i < pcm16.length; i++, off += 2) view.setInt16(off, pcm16[i], true);\<close>
\<close>

fun write_samples :: "nat \<Rightarrow> 16 word list \<Rightarrow> bytes \<Rightarrow> bytes option" where
  "write_samples off [] view = Some view"
| "write_samples off (s # pcm16) view =
     setInt16 off s view \<bind> write_samples (off + 2) pcm16"

definition pcm16ToWavBlob :: "16 word list \<Rightarrow> nat \<Rightarrow> nat \<Rightarrow> bytes option" where
  "pcm16ToWavBlob pcm16 sampleRate numChannels =
     (let bytesPerSample = 2;
          blockAlign = numChannels * bytesPerSample;
          byteRate = sampleRate * blockAlign;
          dataSize = length pcm16 * bytesPerSample;
          buffer = replicate (44 + dataSize) 0
      in do {
        view \<leftarrow> writeStr 0 ''RIFF'' buffer;
        view \<leftarrow> setUint32 4 (36 + dataSize) view;
        view \<leftarrow> writeStr 8 ''WAVE'' view;
        view \<leftarrow> writeStr 12 ''fmt '' view;
        view \<leftarrow> setUint32 16 16 view;
        view \<leftarrow> setUint16 20 1 view;
        view \<leftarrow> setUint16 22 numChannels view;
        view \<leftarrow> setUint32 24 sampleRate view;
        view \<leftarrow> setUint32 28 byteRate view;
        view \<leftarrow> setUint16 32 blockAlign view;
        view \<leftarrow> setUint16 34 16 view;
        view \<leftarrow> writeStr 36 ''data'' view;
        view \<leftarrow> setUint32 40 dataSize view;
        write_samples 44 pcm16 view
      })"

section \<open>\<open>floatTo16BitPCM\<close> (\<open>useVoiceStream.jsx\<close>)\<close>

text \<open>
  \<^verbatim>\<open>for (let i = 0; i < l; i++) {
    let s = Math.max(-1, Math.min(1, float32Array[i]));
    view.setInt16(i * 2, s < 0 ? s * 0x8000 : s * 0x7fff, true);
  }\<close>
  The store converts the scaled value with \<open>ToInt16\<close>.
\<close>

definition floatTo16BitPCM :: "jsnum list \<Rightarrow> bytes option" where
  "floatTo16BitPCM float32Array =
     (let l = length float32Array;
          buf = replicate (l * 2) 0
      in write_samples 0 (map (\<lambda>x. ToInt16 (scale_sample x)) float32Array) buf)"

section \<open>\<open>downsampleBuffer\<close> (\<open>useVoiceStream.jsx\<close>)\<close>











section \<open>Confidence smoothing\<close>

text \<open>
  Modelled from the spec: the smoothing of the confidence scorer. Its code
  (\<open>smooth_confidence\<close> in \<open>app/audio/ml/confidence.py\<close> of the backend) is not among the
  sources; the specification gives it as the exponential moving average
  \<open>smoothed = \<alpha> * raw + (1 - \<alpha>) * prior_smoothed\<close>, with the state of a stream
  initialised to its first raw score. Scores are taken as real numbers.
\<close>

definition smooth :: "real \<Rightarrow> real \<Rightarrow> real \<Rightarrow> real" where
  "smooth \<alpha> raw prior_smoothed = \<alpha> * raw + (1 - \<alpha>) * prior_smoothed"

text \<open>
  Modelled from the spec: the smoothing state of a stream is empty until the first raw
  score arrives, which it then holds; afterwards each raw score is smoothed against it.
\<close>

fun smooth_next :: "real \<Rightarrow> real option \<Rightarrow> real \<Rightarrow> real" where
  "smooth_next \<alpha> None raw = raw"
| "smooth_next \<alpha> (Some prior_smoothed) raw = smooth \<alpha> raw prior_smoothed"

text \<open>The smoothed scores that a stream of raw scores produces, from a given state on.\<close>

fun smooth_stream :: "real \<Rightarrow> real option \<Rightarrow> real list \<Rightarrow> real list" where
  "smooth_stream \<alpha> state [] = []"
| "smooth_stream \<alpha> state (raw # raws) =
     smooth_next \<alpha> state raw # smooth_stream \<alpha> (Some (smooth_next \<alpha> state raw)) raws"

section \<open>Properties of the sample conversions\<close>

text \<open>Evaluating the integer part of a quotient of numerals.\<close>

lemma floor_rat_numeral [simp]:
  "\<lfloor>numeral a / numeral b :: rat\<rfloor> = numeral a div numeral b"
  by (metis floor_divide_of_int_eq of_int_numeral)

lemma floor_rat_minus_numeral [simp]:
  "\<lfloor>- (numeral a / numeral b) :: rat\<rfloor> = - numeral a div numeral b"
  by (metis divide_minus_left floor_divide_of_int_eq of_int_neg_numeral of_int_numeral)

lemma clamp_cases:
  "Math_max (Fin (- 1)) (Math_min (Fin 1) x) =
     (case x of NaN \<Rightarrow> NaN | NegInf \<Rightarrow> Fin (- 1) | PosInf \<Rightarrow> Fin 1
      | Fin a \<Rightarrow> Fin (max (- 1) (min 1 a)))"
  by (cases x) simp_all

lemma scale_sample_Fin:
  "scale_sample (Fin a) =
     (let s = max (- 1) (min 1 a) in if s < 0 then Fin (s * 32768) else Fin (s * 32767))"
  by (auto simp: scale_sample_def clamp_cases Let_def)

lemma scale_sample_NaN: "scale_sample NaN = NaN"
  and scale_sample_NegInf: "scale_sample NegInf = Fin (- 32768)"
  and scale_sample_PosInf: "scale_sample PosInf = Fin 32767"
  by (simp_all add: scale_sample_def)

lemma js_trunc_scale_range:
  "- 32768 \<le> js_trunc (scale_sample x) \<and> js_trunc (scale_sample x) \<le> 32767"
proof (cases x)
  case (Fin a)
  let ?s = "max (- 1) (min 1 a)"
  have s: "- 1 \<le> ?s" "?s \<le> 1" by simp_all
  show ?thesis
  proof (cases "?s < 0")
    case True
    have "(- 32768 :: rat) \<le> ?s * 32768" using s by linarith
    then have "\<lceil>(- 32768 :: rat)\<rceil> \<le> \<lceil>?s * 32768\<rceil>" by (rule ceiling_mono)
    moreover have "?s * 32768 \<le> 0" using True by linarith
    then have "\<lceil>?s * 32768\<rceil> \<le> \<lceil>0::rat\<rceil>" by (rule ceiling_mono)
    ultimately show ?thesis using True Fin by (simp add: scale_sample_Fin Let_def)
  next
    case False
    have "?s * 32767 \<le> (32767 :: rat)" using s by linarith
    then have "\<lfloor>?s * 32767\<rfloor> \<le> \<lfloor>32767 :: rat\<rfloor>" by (rule floor_mono)
    moreover have "0 \<le> ?s * 32767" using False by linarith
    then have "\<lfloor>0::rat\<rfloor> \<le> \<lfloor>?s * 32767\<rfloor>" by (rule floor_mono)
    ultimately show ?thesis using False Fin by (simp add: scale_sample_Fin Let_def)
  qed
qed (simp_all add: scale_sample_NaN scale_sample_NegInf scale_sample_PosInf)

lemma sint_ToInt16:
  "- 32768 \<le> js_trunc v \<Longrightarrow> js_trunc v \<le> 32767 \<Longrightarrow> sint (ToInt16 v) = js_trunc v"
  unfolding ToInt16_def by (simp add: int_word_sint)

lemma scale_sample_below:
  "js_less x (Fin (- 1)) \<Longrightarrow> scale_sample x = Fin (- 32768)"
  by (cases x) (simp_all add: scale_sample_Fin scale_sample_NegInf Let_def max_def min_def)

lemma scale_sample_above:
  "js_less (Fin 1) x \<Longrightarrow> scale_sample x = Fin 32767"
  by (cases x) (simp_all add: scale_sample_Fin scale_sample_PosInf Let_def max_def min_def)

lemma roundtrip_int:
  assumes r: "- 32768 \<le> x" "x \<le> 32767"
  shows "ToInt16 (scale_sample (Fin (of_int x / 32768))) = word_of_int (if 0 < x then x - 1 else x)"
proof -
  let ?q = "(of_int x / 32768 :: rat)"
  have q: "- 1 \<le> ?q" "?q \<le> 1" using r by simp_all
  then have m: "max (- 1) (min 1 ?q) = ?q" by simp
  show ?thesis
  proof (cases "0 < x")
    case True
    have "\<lfloor>?q * 32767\<rfloor> = x - 1"
    proof (rule floor_unique)
      show "of_int (x - 1) \<le> ?q * 32767" using True r by (simp add: field_simps)
      show "?q * 32767 < of_int (x - 1) + 1" using True by (simp add: field_simps)
    qed
    moreover have "\<not> ?q < 0" using True by simp
    ultimately show ?thesis
      using m True by (simp add: scale_sample_Fin ToInt16_def Let_def)
  next
    case False
    show ?thesis
    proof (cases "x = 0")
      case True
      then show ?thesis by (simp add: scale_sample_Fin ToInt16_def Let_def)
    next
      case F: False
      then have neg: "?q < 0" using False by simp
      have "?q * 32768 = of_int x" by simp
      then show ?thesis
        using m neg False by (simp add: scale_sample_Fin ToInt16_def Let_def)
    qed
  qed
qed

lemma roundtrip_sample:
  "ToInt16 (scale_sample (Fin (signed w / 32768))) = (if 0 < sint (w :: 16 word) then w - 1 else w)"
proof -
  have r: "- 32768 \<le> sint w" "sint w \<le> 32767"
    using sint_ge [of w] sint_lt [of w] by simp_all
  have "(signed w :: rat) = of_int (sint w)" by simp
  then show ?thesis using roundtrip_int [OF r] by simp
qed

text \<open>
  Claim C8, as the code has it. Converting an \<open>Int16Array\<close> with \<open>int16ToFloat32\<close> and back
  with \<open>floatToInt16\<close> returns every sample that is zero or negative unchanged, and every
  positive sample \<open>v\<close> as \<open>v - 1\<close>: the way to float divides by \<open>0x8000\<close>, the way back
  multiplies a non-negative value by \<open>0x7fff\<close> and truncates.
\<close>

theorem roundtrip_amended:
  "floatToInt16 (int16ToFloat32 int16) = map (\<lambda>w. if 0 < sint w then w - 1 else w) int16"
  by (simp add: floatToInt16_def int16ToFloat32_def roundtrip_sample)


theorem roundtrip_amended_witness:
  "floatToInt16 (int16ToFloat32 [1, 0, - 1, 32767]) = [0, 0, - 1, 32766]"
  using roundtrip_amended [of "[1, 0, - 1, 32767]"] by simp

text \<open>The round trip is not the identity: the sample 1 comes back as 0.\<close>

theorem roundtrip_counterexample:
  "floatToInt16 (int16ToFloat32 [1]) \<noteq> [1]"
  using roundtrip_int [of 1] by (simp add: floatToInt16_def int16ToFloat32_def)

section \<open>Properties of the frame accumulator\<close>

lemma send_frames_step:
  "FRAME_SAMPLES \<le> length (accumRef st) \<Longrightarrow>
   send_frames st =
     send_frames (st\<lparr>accumRef := drop FRAME_SAMPLES (accumRef st),
                      ws_sent := ws_sent st @ [floatToInt16 (take FRAME_SAMPLES (accumRef st))]\<rparr>)"
  by (subst send_frames.simps) (simp add: Let_def)

lemma send_frames_done:
  "\<not> FRAME_SAMPLES \<le> length (accumRef st) \<Longrightarrow> send_frames st = st"
  by (subst send_frames.simps) simp

text \<open>
  The loop as a whole: it moves a list of complete frames from the front of the accumulator
  to the socket and leaves fewer than a frame behind.
\<close>

lemma send_frames_result:
  "\<exists>frs. send_frames st =
           st\<lparr>accumRef := drop (length (concat frs)) (accumRef st),
              ws_sent := ws_sent st @ map floatToInt16 frs\<rparr>
         \<and> (\<forall>f \<in> set frs. length f = FRAME_SAMPLES)
         \<and> concat frs @ drop (length (concat frs)) (accumRef st) = accumRef st
         \<and> length (accumRef st) - length (concat frs) < FRAME_SAMPLES"
proof (induction "length (accumRef st)" arbitrary: st rule: less_induct)
  case less
  show ?case
  proof (cases "FRAME_SAMPLES \<le> length (accumRef st)")
    case False
    have "send_frames st = st\<lparr>accumRef := drop (length (concat ([] :: jsnum list list))) (accumRef st),
              ws_sent := ws_sent st @ map floatToInt16 []\<rparr>"
      using False by (simp add: send_frames_done)
    moreover have "length (accumRef st) - length (concat ([] :: jsnum list list)) < FRAME_SAMPLES"
      using False by simp
    ultimately show ?thesis by (intro exI [of _ "[]"]) simp
  next
    case True
    define frame where "frame = take FRAME_SAMPLES (accumRef st)"
    define rest where "rest = drop FRAME_SAMPLES (accumRef st)"
    define st1 where "st1 = st\<lparr>accumRef := rest, ws_sent := ws_sent st @ [floatToInt16 frame]\<rparr>"
    have fl: "length frame = FRAME_SAMPLES"
      using True by (simp add: frame_def)
    have split: "accumRef st = frame @ rest"
      by (simp add: frame_def rest_def)
    have a1: "accumRef st1 = rest" and w1: "ws_sent st1 = ws_sent st @ [floatToInt16 frame]"
      by (simp_all add: st1_def)
    have "length (accumRef st1) < length (accumRef st)"
      unfolding a1 split using fl by (simp add: FRAME_SAMPLES_def)
    from less.hyps [OF this] obtain frs where
      eq: "send_frames st1 =
             st1\<lparr>accumRef := drop (length (concat frs)) (accumRef st1),
                 ws_sent := ws_sent st1 @ map floatToInt16 frs\<rparr>"
      and len: "\<forall>f \<in> set frs. length f = FRAME_SAMPLES"
      and cat: "concat frs @ drop (length (concat frs)) (accumRef st1) = accumRef st1"
      and small: "length (accumRef st1) - length (concat frs) < FRAME_SAMPLES"
      by blast
    have unf: "send_frames st = send_frames st1"
      using send_frames_step [OF True] by (simp add: st1_def frame_def rest_def)
    have d: "drop (length (concat (frame # frs))) (accumRef st) = drop (length (concat frs)) rest"
      unfolding split by (simp add: fl)
    have "send_frames st =
            st\<lparr>accumRef := drop (length (concat (frame # frs))) (accumRef st),
               ws_sent := ws_sent st @ map floatToInt16 (frame # frs)\<rparr>"
      unfolding unf eq d a1 w1 by (simp add: st1_def)
    moreover have "\<forall>f \<in> set (frame # frs). length f = FRAME_SAMPLES"
      using len fl by simp
    moreover have "concat (frame # frs) @ drop (length (concat (frame # frs))) (accumRef st)
                     = accumRef st"
      unfolding d using cat unfolding a1 split by simp
    moreover have "length (accumRef st) - length (concat (frame # frs)) < FRAME_SAMPLES"
      using small unfolding a1 split by (simp add: fl)
    ultimately show ?thesis by (intro exI [of _ "frame # frs"]) (intro conjI)
  qed
qed

text \<open>The playback functions and \<open>stop\<close> do not touch the accumulator or the socket log.\<close>

lemma schedule_while_stop:
  "\<not> (recvQueueRef st \<noteq> [] \<and> scheduled < 10) \<Longrightarrow> schedule_while e scheduled st = st"
  by (subst schedule_while.simps) auto

lemma schedule_while_skip:
  "recvQueueRef st \<noteq> [] \<and> scheduled < 10 \<Longrightarrow> hd (recvQueueRef st) = [] \<Longrightarrow>
   schedule_while e scheduled st
     = schedule_while e scheduled (st\<lparr>recvQueueRef := tl (recvQueueRef st)\<rparr>)"
  by (subst schedule_while.simps) (simp add: Let_def)

lemma schedule_while_play:
  "recvQueueRef st \<noteq> [] \<and> scheduled < 10 \<Longrightarrow> hd (recvQueueRef st) \<noteq> [] \<Longrightarrow>
   schedule_while e scheduled st
     = schedule_while e (scheduled + 1)
         (st\<lparr>recvQueueRef := tl (recvQueueRef st),
             started := started st @ [(int16ToFloat32 (hd (recvQueueRef st)),
                                       max (nextPlayTimeRef st) (ctx_currentTime e + 1 / 100))],
             nextPlayTimeRef := max (nextPlayTimeRef st) (ctx_currentTime e + 1 / 100)
                                + of_nat (length (int16ToFloat32 (hd (recvQueueRef st))))
                                  / ctx_sampleRate e\<rparr>)"
  by (subst schedule_while.simps) (simp add: Let_def max_def)

text \<open>
  Induction over the iterations of the loop: a property that holds when the loop stops and
  is carried back over an iteration that drops an empty chunk and over one that starts a
  chunk holds for the loop.
\<close>

lemma schedule_while_induct [case_names stop skip play]:
  assumes stop: "\<And>e n st. \<not> (recvQueueRef st \<noteq> [] \<and> n < 10) \<Longrightarrow> P e n st"
    and skip: "\<And>e n st. recvQueueRef st \<noteq> [] \<and> n < 10 \<Longrightarrow> hd (recvQueueRef st) = [] \<Longrightarrow>
                 P e n (st\<lparr>recvQueueRef := tl (recvQueueRef st)\<rparr>) \<Longrightarrow> P e n st"
    and play: "\<And>e n st. recvQueueRef st \<noteq> [] \<and> n < 10 \<Longrightarrow> hd (recvQueueRef st) \<noteq> [] \<Longrightarrow>
                 P e (n + 1)
                   (st\<lparr>recvQueueRef := tl (recvQueueRef st),
                       started := started st @ [(int16ToFloat32 (hd (recvQueueRef st)),
                                       max (nextPlayTimeRef st) (ctx_currentTime e + 1 / 100))],
                       nextPlayTimeRef := max (nextPlayTimeRef st) (ctx_currentTime e + 1 / 100)
                                          + of_nat (length (int16ToFloat32 (hd (recvQueueRef st))))
                                            / ctx_sampleRate e\<rparr>)
                 \<Longrightarrow> P e n st"
  shows "P e n st"
proof (induction "length (recvQueueRef st)" arbitrary: n st rule: less_induct)
  case less
  show ?case
  proof (cases "recvQueueRef st \<noteq> [] \<and> n < 10")
    case False
    then show ?thesis by (rule stop)
  next
    case True
    then have shorter: "length (recvQueueRef st) - Suc 0 < length (recvQueueRef st)"
      by (cases "recvQueueRef st") simp_all
    show ?thesis
    proof (cases "hd (recvQueueRef st) = []")
      case e: True
      show ?thesis
        by (rule skip [OF True e], rule less) (simp add: shorter)
    next
      case ne: False
      show ?thesis
        by (rule play [OF True ne], rule less) (simp add: shorter)
    qed
  qed
qed

lemma schedule_while_capture:
  "accumRef (schedule_while e n st) = accumRef st
   \<and> ws_sent (schedule_while e n st) = ws_sent st
   \<and> wsRef (schedule_while e n st) = wsRef st"
proof (induction e n st rule: schedule_while_induct)
  case (stop e n st)
  then show ?case by (simp add: schedule_while_stop)
next
  case (skip e n st)
  then show ?case by (simp add: schedule_while_skip)
next
  case (play e n st)
  then show ?case by (simp add: schedule_while_play)
qed

lemma scheduleLoop_capture:
  "accumRef (scheduleLoop e st) = accumRef st
   \<and> ws_sent (scheduleLoop e st) = ws_sent st
   \<and> wsRef (scheduleLoop e st) = wsRef st"
  by (simp add: scheduleLoop_def Let_def schedule_while_capture)

lemma timer_fires_capture:
  "accumRef (timer_fires e t st) = accumRef st
   \<and> ws_sent (timer_fires e t st) = ws_sent st
   \<and> wsRef (timer_fires e t st) = wsRef st"
  by (cases t) (simp_all add: scheduleLoop_capture)

lemma enqueue_capture:
  "accumRef (enqueue e c st) = accumRef st
   \<and> ws_sent (enqueue e c st) = ws_sent st
   \<and> wsRef (enqueue e c st) = wsRef st"
  by (simp add: enqueue_def Let_def scheduleLoop_capture)

lemma stop_capture:
  "accumRef (stop st) = accumRef st \<and> ws_sent (stop st) = ws_sent st"
  by (simp add: stop_def Let_def)

lemma run_Cons: "run st (x # evs) = run (step st x) evs"
  by (simp add: run_def)

lemma run_Nil: "run st [] = st"
  by (simp add: run_def)

text \<open>One event: the frames it sends, and what it leaves in the accumulator.\<close>

lemma step_capture:
  "\<exists>frs. ws_sent (step st x) = ws_sent st @ map floatToInt16 frs
       \<and> (\<forall>f \<in> set frs. length f = FRAME_SAMPLES)
       \<and> concat frs @ accumRef (step st x) = accumRef st @ pushed st [x]
       \<and> (length (accumRef st) < FRAME_SAMPLES \<longrightarrow> length (accumRef (step st x)) < FRAME_SAMPLES)"
proof -
  obtain e ev where x: "x = (e, ev)" by (cases x)
  have same: "accumRef (step st x) = accumRef st \<Longrightarrow> ws_sent (step st x) = ws_sent st
              \<Longrightarrow> pushed st [x] = [] \<Longrightarrow> ?thesis"
    by (intro exI [of _ "[]"]) simp
  show ?thesis
  proof (cases ev)
    case (AudioProcess input)
    show ?thesis
    proof (cases "wsRef st = None \<or> ws_readyState e \<noteq> OPEN")
      case True
      then show ?thesis using x AudioProcess by (intro same) (auto simp: onaudioprocess_def)
    next
      case False
      let ?st1 = "st\<lparr>accumRef := accumRef st @ input\<rparr>"
      from send_frames_result [of ?st1] obtain frs where
        eq: "send_frames ?st1 =
               ?st1\<lparr>accumRef := drop (length (concat frs)) (accumRef ?st1),
                    ws_sent := ws_sent ?st1 @ map floatToInt16 frs\<rparr>"
        and len: "\<forall>f \<in> set frs. length f = FRAME_SAMPLES"
        and cat: "concat frs @ drop (length (concat frs)) (accumRef ?st1) = accumRef ?st1"
        and rest: "length (accumRef ?st1) - length (concat frs) < FRAME_SAMPLES"
        by blast
      have s: "step st x = send_frames ?st1"
        using x AudioProcess False by (simp add: onaudioprocess_def)
      have p: "pushed st [x] = input"
        using x AudioProcess False by simp
      have "ws_sent (step st x) = ws_sent st @ map floatToInt16 frs"
        using s eq by simp
      moreover have "concat frs @ accumRef (step st x) = accumRef st @ pushed st [x]"
        using s eq cat p by simp
      moreover have "length (accumRef (step st x)) < FRAME_SAMPLES"
        using s eq rest by simp
      ultimately show ?thesis using len by blast
    qed
  next
    case (Enqueue c)
    then show ?thesis using x by (intro same) (simp_all add: enqueue_capture)
  next
    case Timeout
    then show ?thesis using x
      by (intro same) (simp_all add: timer_fires_capture split: list.splits)
  next
    case Stop
    then show ?thesis using x by (intro same) (simp_all add: stop_capture)
  qed
qed

lemma pushed_Cons: "pushed st (x # evs) = pushed st [x] @ pushed (step st x) evs"
  by (cases x) simp

text \<open>A whole run, from any state.\<close>

lemma run_capture:
  "\<exists>frs. ws_sent (run st evs) = ws_sent st @ map floatToInt16 frs
       \<and> (\<forall>f \<in> set frs. length f = FRAME_SAMPLES)
       \<and> concat frs @ accumRef (run st evs) = accumRef st @ pushed st evs
       \<and> (length (accumRef st) < FRAME_SAMPLES \<longrightarrow> length (accumRef (run st evs)) < FRAME_SAMPLES)"
proof (induction evs arbitrary: st)
  case Nil
  show ?case by (intro exI [of _ "[]"]) (simp add: run_Nil)
next
  case (Cons x evs)
  from step_capture [of st x] obtain f1 where
    a1: "ws_sent (step st x) = ws_sent st @ map floatToInt16 f1"
    and a2: "\<forall>f \<in> set f1. length f = FRAME_SAMPLES"
    and a3: "concat f1 @ accumRef (step st x) = accumRef st @ pushed st [x]"
    and a4: "length (accumRef st) < FRAME_SAMPLES \<longrightarrow> length (accumRef (step st x)) < FRAME_SAMPLES"
    by blast
  from Cons.IH [of "step st x"] obtain f2 where
    b1: "ws_sent (run (step st x) evs) = ws_sent (step st x) @ map floatToInt16 f2"
    and b2: "\<forall>f \<in> set f2. length f = FRAME_SAMPLES"
    and b3: "concat f2 @ accumRef (run (step st x) evs) = accumRef (step st x) @ pushed (step st x) evs"
    and b4: "length (accumRef (step st x)) < FRAME_SAMPLES
             \<longrightarrow> length (accumRef (run (step st x) evs)) < FRAME_SAMPLES"
    by blast
  have "ws_sent (run st (x # evs)) = ws_sent st @ map floatToInt16 (f1 @ f2)"
    using a1 b1 by (simp add: run_Cons)
  moreover have "\<forall>f \<in> set (f1 @ f2). length f = FRAME_SAMPLES"
    using a2 b2 by auto
  moreover have "concat (f1 @ f2) @ accumRef (run st (x # evs)) = accumRef st @ pushed st (x # evs)"
  proof -
    have "concat (f1 @ f2) @ accumRef (run st (x # evs))
            = concat f1 @ (concat f2 @ accumRef (run (step st x) evs))"
      by (simp add: run_Cons)
    also have "\<dots> = (concat f1 @ accumRef (step st x)) @ pushed (step st x) evs"
      using b3 by simp
    also have "\<dots> = accumRef st @ pushed st [x] @ pushed (step st x) evs"
      using a3 by simp
    finally show ?thesis by (simp add: pushed_Cons [of st x evs])
  qed
  moreover have "length (accumRef st) < FRAME_SAMPLES
                 \<longrightarrow> length (accumRef (run st (x # evs))) < FRAME_SAMPLES"
    using a4 b4 by (simp add: run_Cons)
  ultimately show ?case by blast
qed

lemma concat_frames_length:
  "\<forall>f \<in> set frs. length f = n \<Longrightarrow> length (concat frs) = n * length frs"
  by (induction frs) simp_all


lemma length_floatToInt16: "length (floatToInt16 xs) = length xs"
  by (simp add: floatToInt16_def)

text \<open>
  Claim C1. In every run of the hook that starts with an empty accumulator, each frame sent
  over the socket has exactly \<open>SAMPLE_RATE * FRAME_MS / 1000 = 320\<close> samples, and the
  accumulator always holds fewer than 320 samples: exactly the samples that arrived after the
  last complete frame, which have not been sent.
\<close>

theorem frames_exact:
  assumes "accumRef st0 = []" and "ws_sent st0 = []"
  shows "(\<forall>f \<in> set (ws_sent (run st0 evs)). length f = SAMPLE_RATE * FRAME_MS div 1000)
       \<and> SAMPLE_RATE * FRAME_MS div 1000 = 320
       \<and> length (accumRef (run st0 evs)) < 320
       \<and> accumRef (run st0 evs) = drop (320 * length (ws_sent (run st0 evs))) (pushed st0 evs)"
proof -
  from run_capture [of st0 evs] assms obtain frs where
    s: "ws_sent (run st0 evs) = map floatToInt16 frs"
    and l: "\<forall>f \<in> set frs. length f = FRAME_SAMPLES"
    and c: "concat frs @ accumRef (run st0 evs) = pushed st0 evs"
    and r: "length (accumRef (run st0 evs)) < FRAME_SAMPLES"
    by (auto simp: FRAME_SAMPLES_def)
  have n: "SAMPLE_RATE * FRAME_MS div 1000 = 320" "FRAME_SAMPLES = 320"
    by (simp_all add: SAMPLE_RATE_def FRAME_MS_def FRAME_SAMPLES_def)
  have "\<forall>f \<in> set (ws_sent (run st0 evs)). length f = 320"
    using s l n by (auto simp: length_floatToInt16)
  moreover have "accumRef (run st0 evs) = drop (320 * length (ws_sent (run st0 evs))) (pushed st0 evs)"
  proof -
    have "length (concat frs) = 320 * length (ws_sent (run st0 evs))"
      using concat_frames_length [OF l] s n by simp
    then show ?thesis using c [symmetric] by simp
  qed
  ultimately show ?thesis using n r by simp
qed


section \<open>Properties of the playback queue\<close>









subsection \<open>What the playback functions leave alone\<close>




subsection \<open>Start times within a playing period\<close>


lemma scheduled_in_order_later:
  "scheduled_in_order st \<Longrightarrow> nextPlayTimeRef st \<le> t \<Longrightarrow>
   scheduled_in_order (st\<lparr>nextPlayTimeRef := t\<rparr>)"
  by (fastforce simp: scheduled_in_order_def)





subsection \<open>Playback keeps a timeout pending\<close>



subsection \<open>Timeouts empty the queue\<close>







text \<open>
  A run: 100 samples arrive while the socket is still connecting and are discarded, then 400
  and 300 samples arrive on the open socket. Two frames of 320 samples are sent and 60
  samples stay in the accumulator.
\<close>

theorem frames_exact_witness:
  "accumRef running_hook = [] \<and> ws_sent running_hook = []
   \<and> map length (ws_sent (run running_hook
        [(browser CONNECTING 0, AudioProcess (replicate 100 (Fin 1))),
         (browser OPEN 1, AudioProcess (replicate 400 (Fin (1 / 2)))),
         (browser OPEN 2, AudioProcess (replicate 300 (Fin (- 2))))])) = [320, 320]
   \<and> accumRef (run running_hook
        [(browser CONNECTING 0, AudioProcess (replicate 100 (Fin 1))),
         (browser OPEN 1, AudioProcess (replicate 400 (Fin (1 / 2)))),
         (browser OPEN 2, AudioProcess (replicate 300 (Fin (- 2))))]) = replicate 60 (Fin (- 2))"
  using frames_exact [of running_hook
        "[(browser CONNECTING 0, AudioProcess (replicate 100 (Fin 1))),
         (browser OPEN 1, AudioProcess (replicate 400 (Fin (1 / 2)))),
         (browser OPEN 2, AudioProcess (replicate 300 (Fin (- 2))))]"]
  by (simp add: run_def running_hook_def browser_def onaudioprocess_def
      send_frames_step send_frames_done FRAME_SAMPLES_def length_floatToInt16)




section \<open>Stopping\<close>

text \<open>
  Claim C7. Whatever state the hook is in, after \<open>stop\<close> the socket, script-processor,
  audio-source, media-stream and audio-context refs are all \<open>null\<close>, the playing flag is
  false and the status is \<open>idle\<close>; and every resource whose ref was set has received its
  release call.
\<close>

theorem stop_releases:
  "wsRef (stop st) = None \<and> procRef (stop st) = None \<and> sourceRef (stop st) = None
   \<and> streamRef (stop st) = None \<and> ctxRef (stop st) = None
   \<and> \<not> isPlayingRef (stop st) \<and> status (stop st) = ''idle''
   \<and> (wsRef st \<noteq> None \<longrightarrow> WsClose \<in> set (calls (stop st)))
   \<and> (procRef st \<noteq> None \<longrightarrow> ProcDisconnect \<in> set (calls (stop st)))
   \<and> (sourceRef st \<noteq> None \<longrightarrow> SourceDisconnect \<in> set (calls (stop st)))
   \<and> (streamRef st \<noteq> None \<longrightarrow> TracksStop \<in> set (calls (stop st)))
   \<and> (ctxRef st \<noteq> None \<longrightarrow> CtxClose \<in> set (calls (stop st)))"
  by (simp add: stop_def Let_def)

theorem stop_releases_witness:
  "status (stop (running_hook\<lparr>isPlayingRef := True\<rparr>)) = ''idle''
   \<and> \<not> isPlayingRef (stop (running_hook\<lparr>isPlayingRef := True\<rparr>))
   \<and> ctxRef (stop (running_hook\<lparr>isPlayingRef := True\<rparr>)) = None
   \<and> calls (stop (running_hook\<lparr>isPlayingRef := True\<rparr>))
       = [WsClose, ProcDisconnect, SourceDisconnect, TracksStop, CtxClose]"
  using stop_releases [of "running_hook\<lparr>isPlayingRef := True\<rparr>"]
  by (simp add: stop_def Let_def running_hook_def)

section \<open>Properties of the byte stores\<close>

lemma store_at:
  "length old = length bs \<Longrightarrow>
   store (length pre) bs (pre @ old @ post) = Some (pre @ bs @ post)"
  by (simp add: store_def)

lemma write_samples_at:
  "length old = 2 * length pcm16 \<Longrightarrow>
   write_samples (length pre) pcm16 (pre @ old)
     = Some (pre @ concat (map (\<lambda>w. le16 (unat w)) pcm16))"
proof (induction pcm16 arbitrary: pre old)
  case Nil
  then show ?case by simp
next
  case (Cons s pcm16)
  then obtain a b rest where old: "old = [a, b] @ rest" and r: "length rest = 2 * length pcm16"
    by (cases old; cases "tl old") auto
  have "setInt16 (length pre) s (pre @ old) = Some ((pre @ le16 (unat s)) @ rest)"
    unfolding old setInt16_def using store_at [of "[a, b]" "le16 (unat s)" pre rest]
    by (simp add: le16_def)
  moreover have "write_samples (length (pre @ le16 (unat s))) pcm16 ((pre @ le16 (unat s)) @ rest)
                  = Some ((pre @ le16 (unat s)) @ concat (map (\<lambda>w. le16 (unat w)) pcm16))"
    using r by (rule Cons.IH)
  moreover have "length (pre @ le16 (unat s)) = length pre + 2"
    by (simp add: le16_def)
  ultimately show ?case by simp
qed

lemma bytes2: "v mod 256 + 256 * (v div 256 mod 256) = v mod 65536" for v :: nat
  using mod_mult2_eq [of v 256 256] by simp

lemma bytes4:
  "v mod 256 + 256 * (v div 256 mod 256) + 65536 * (v div 65536 mod 256)
     + 16777216 * (v div 16777216 mod 256) = v mod 4294967296" for v :: nat
proof -
  have "v mod 4294967296 = 65536 * (v div 65536 mod 65536) + v mod 65536"
    using mod_mult2_eq [of v 65536 65536] by simp
  moreover have "v div 65536 mod 65536
                  = (v div 65536) mod 256 + 256 * ((v div 65536) div 256 mod 256)"
    using bytes2 [of "v div 65536"] by simp
  moreover have "(v div 65536) div 256 = v div 16777216"
    by (simp add: div_mult2_eq [symmetric])
  ultimately show ?thesis using bytes2 [of v] by simp
qed

lemma getUint16_le16: "getUint16 0 (le16 v) = v mod 65536"
  using bytes2 [of v] by (simp add: getUint16_def le16_def unat_of_nat)

lemma getUint32_le32: "getUint32 0 (le32 v) = v mod 4294967296"
  using bytes4 [of v] by (simp add: getUint32_def le32_def unat_of_nat)

lemma getInt16_le16: "getInt16 0 (le16 (unat w)) = w"
proof -
  have "unat w < 65536" using unsigned_less [of w] by simp
  then show ?thesis by (simp add: getInt16_def getUint16_le16)
qed

section \<open>Properties of \<open>pcm16ToWavBlob\<close>\<close>

lemma zeros44:
  "replicate (44 + m) (0 :: 8 word) =
     [0,0,0,0, 0,0,0,0, 0,0,0,0, 0,0,0,0, 0,0,0,0, 0,0,0,0, 0,0,0,0, 0,0,0,0, 0,0,0,0,
      0,0,0,0, 0,0,0,0] @ replicate m 0"
  by (simp add: replicate_add numeral_eq_Suc)

text \<open>The thirteen header stores fill the first 44 bytes; the sample loop starts from there.\<close>

lemma header_stores:
  "pcm16ToWavBlob pcm16 sampleRate numChannels =
     write_samples 44 pcm16
      ((map (of_nat \<circ> of_char) ''RIFF'' @ le32 (36 + length pcm16 * 2)
        @ map (of_nat \<circ> of_char) ''WAVE'' @ map (of_nat \<circ> of_char) ''fmt ''
        @ le32 16 @ le16 1 @ le16 numChannels @ le32 sampleRate
        @ le32 (sampleRate * (numChannels * 2)) @ le16 (numChannels * 2) @ le16 16
        @ map (of_nat \<circ> of_char) ''data'' @ le32 (length pcm16 * 2))
       @ replicate (length pcm16 * 2) 0)"
  unfolding pcm16ToWavBlob_def Let_def zeros44
  by (simp add: setUint32_def setUint16_def setUint8_def store_def le32_def le16_def)

lemma wav_blob_bytes:
  "pcm16ToWavBlob pcm16 sampleRate numChannels =
     Some ((map (of_nat \<circ> of_char) ''RIFF'' @ le32 (36 + length pcm16 * 2)
        @ map (of_nat \<circ> of_char) ''WAVE'' @ map (of_nat \<circ> of_char) ''fmt ''
        @ le32 16 @ le16 1 @ le16 numChannels @ le32 sampleRate
        @ le32 (sampleRate * (numChannels * 2)) @ le16 (numChannels * 2) @ le16 16
        @ map (of_nat \<circ> of_char) ''data'' @ le32 (length pcm16 * 2))
       @ concat (map (\<lambda>w. le16 (unat w)) pcm16))"
  (is "_ = Some (?H @ _)")
proof -
  have "length ?H = 44" by (simp add: le32_def le16_def)
  then have "write_samples 44 pcm16 (?H @ replicate (length pcm16 * 2) 0)
        = Some (?H @ concat (map (\<lambda>w. le16 (unat w)) pcm16))"
    using write_samples_at [of "replicate (length pcm16 * 2) 0" pcm16 ?H] by simp
  then show ?thesis unfolding header_stores .
qed

text \<open>Reading a field back from a buffer laid out as prefix, field, suffix.\<close>

lemma getUint32_at:
  "length pre = off \<Longrightarrow> getUint32 off (pre @ le32 v @ post) = v mod 4294967296"
  using getUint32_le32 [of v]
  by (simp add: getUint32_def nth_append le32_def)

lemma getUint16_at:
  "length pre = off \<Longrightarrow> getUint16 off (pre @ le16 v @ post) = v mod 65536"
  using getUint16_le16 [of v]
  by (simp add: getUint16_def nth_append le16_def)

lemma length_samples_le: "length (concat (map (\<lambda>w. le16 (unat w)) pcm16)) = 2 * length pcm16"
  by (induction pcm16) (simp_all add: le16_def)

lemma getInt16_samples:
  "i < length pcm16 \<Longrightarrow>
   getInt16 (2 * i) (concat (map (\<lambda>w. le16 (unat w)) pcm16)) = pcm16 ! i"
proof (induction pcm16 arbitrary: i)
  case Nil
  then show ?case by simp
next
  case (Cons s pcm16)
  show ?case
  proof (cases i)
    case 0
    have "getInt16 0 (le16 (unat s) @ concat (map (\<lambda>w. le16 (unat w)) pcm16))
            = getInt16 0 (le16 (unat s))"
      by (simp add: getInt16_def getUint16_def le16_def)
    then show ?thesis using 0 by (simp add: getInt16_le16)
  next
    case (Suc j)
    have "getInt16 (2 * Suc j) (le16 (unat s) @ concat (map (\<lambda>w. le16 (unat w)) pcm16))
            = getInt16 (2 * j) (concat (map (\<lambda>w. le16 (unat w)) pcm16))"
      by (simp add: getInt16_def getUint16_def le16_def)
    then show ?thesis using Suc Cons.IH [of j] Cons.prems by simp
  qed
qed

lemma getInt16_shift:
  "length pre = off \<Longrightarrow> getInt16 (off + k) (pre @ post) = getInt16 k post"
  by (simp add: getInt16_def getUint16_def nth_append)

text \<open>
  Claim C9, as the code has it. For every \<open>Int16Array\<close> of \<open>n\<close> samples \<open>pcm16ToWavBlob\<close>
  produces a blob of exactly \<open>44 + 2 n\<close> bytes. Its header records 16 bits per sample, and
  in its 32-bit fields the data-chunk size \<open>2 n\<close> and the byte rate
  \<open>sampleRate * numChannels * 2\<close>, each reduced modulo \<open>2^32\<close>: the very values whenever
  they are below \<open>2^32\<close>. Its data section holds the \<open>n\<close> samples little-endian, in order.
\<close>

theorem wav_blob_layout:
  "\<exists>blob. pcm16ToWavBlob pcm16 sampleRate numChannels = Some blob
     \<and> length blob = 44 + 2 * length pcm16
     \<and> getUint32 40 blob = (2 * length pcm16) mod 2 ^ 32
     \<and> (2 * length pcm16 < 2 ^ 32 \<longrightarrow> getUint32 40 blob = 2 * length pcm16)
     \<and> getUint32 28 blob = (sampleRate * numChannels * 2) mod 2 ^ 32
     \<and> (sampleRate * numChannels * 2 < 2 ^ 32
          \<longrightarrow> getUint32 28 blob = sampleRate * numChannels * 2)
     \<and> getUint16 34 blob = 16
     \<and> drop 44 blob = concat (map (\<lambda>w. le16 (unat w)) pcm16)
     \<and> (\<forall>i < length pcm16. getInt16 (44 + 2 * i) blob = pcm16 ! i)"
proof -
  define data where "data = concat (map (\<lambda>w. le16 (unat w)) pcm16)"
  define p40 where "p40 = map (of_nat \<circ> of_char) ''RIFF'' @ le32 (36 + length pcm16 * 2)
        @ map (of_nat \<circ> of_char) ''WAVE'' @ map (of_nat \<circ> of_char) ''fmt ''
        @ le32 16 @ le16 1 @ le16 numChannels @ le32 sampleRate
        @ le32 (sampleRate * (numChannels * 2)) @ le16 (numChannels * 2) @ le16 16
        @ map (of_nat \<circ> of_char) ''data''"
  define p28 where "p28 = map (of_nat \<circ> of_char) ''RIFF'' @ le32 (36 + length pcm16 * 2)
        @ map (of_nat \<circ> of_char) ''WAVE'' @ map (of_nat \<circ> of_char) ''fmt ''
        @ le32 16 @ le16 1 @ le16 numChannels @ le32 sampleRate"
  define p34 where "p34 = p28 @ le32 (sampleRate * (numChannels * 2)) @ le16 (numChannels * 2)"
  define blob where "blob = (p40 @ le32 (length pcm16 * 2)) @ data"
  have b: "pcm16ToWavBlob pcm16 sampleRate numChannels = Some blob"
    unfolding blob_def p40_def data_def using wav_blob_bytes [of pcm16 sampleRate numChannels]
    by simp
  have l40: "length p40 = 40" and l28: "length p28 = 28" and l34: "length p34 = 34"
    by (simp_all add: p40_def p28_def p34_def le32_def le16_def)
  have len: "length blob = 44 + 2 * length pcm16"
    by (simp add: blob_def l40 data_def length_samples_le le32_def)
  have size: "getUint32 40 blob = (2 * length pcm16) mod 2 ^ 32"
    unfolding blob_def using getUint32_at [OF l40, of "length pcm16 * 2" data]
    by (simp add: mult.commute)
  have "blob = p28 @ le32 (sampleRate * (numChannels * 2))
                @ (le16 (numChannels * 2) @ le16 16 @ map (of_nat \<circ> of_char) ''data''
                   @ le32 (length pcm16 * 2) @ data)"
    by (simp add: blob_def p40_def p28_def)
  then have rate: "getUint32 28 blob = (sampleRate * numChannels * 2) mod 2 ^ 32"
    using getUint32_at [OF l28, of "sampleRate * (numChannels * 2)"] by (simp add: mult.assoc)
  have "blob = p34 @ le16 16
                @ (map (of_nat \<circ> of_char) ''data'' @ le32 (length pcm16 * 2) @ data)"
    by (simp add: blob_def p40_def p34_def p28_def)
  then have bits: "getUint16 34 blob = 16"
    using getUint16_at [OF l34, of 16] by simp
  have l44: "length (p40 @ le32 (length pcm16 * 2)) = 44"
    by (simp add: l40 le32_def)
  have d: "drop 44 blob = data"
    unfolding blob_def using l44 by simp
  have s: "\<forall>i < length pcm16. getInt16 (44 + 2 * i) blob = pcm16 ! i"
    unfolding blob_def using getInt16_shift [OF l44] getInt16_samples [of _ pcm16]
    by (simp add: data_def)
  show ?thesis
    using b len size rate bits d s unfolding data_def by (intro exI [of _ blob]) simp
qed

text \<open>An example: three samples at 16 kHz, one channel.\<close>

theorem wav_blob_layout_witness:
  "pcm16ToWavBlob [1, - 2, 256] 16000 1 =
     Some [0x52, 0x49, 0x46, 0x46, 42, 0, 0, 0, 0x57, 0x41, 0x56, 0x45,
           0x66, 0x6D, 0x74, 0x20, 16, 0, 0, 0, 1, 0, 1, 0,
           0x80, 0x3E, 0, 0, 0, 0x7D, 0, 0, 2, 0, 16, 0,
           0x64, 0x61, 0x74, 0x61, 6, 0, 0, 0,
           1, 0, 0xFE, 0xFF, 0, 1]"
  using wav_blob_layout [of "[1, - 2, 256]" 16000 1]
  by (simp add: wav_blob_bytes le32_def le16_def)

text \<open>
  The claim as stated fails for a recording of \<open>2^31\<close> samples (about 37 hours at 16 kHz):
  the data size \<open>2^32\<close> does not fit the 32-bit header field, which then reads 0.
\<close>

theorem wav_blob_counterexample:
  "map_option (getUint32 40) (pcm16ToWavBlob (replicate 2147483648 0) 16000 1) = Some 0
   \<and> 2 * length (replicate 2147483648 (0 :: 16 word)) \<noteq> 0"
proof -
  let ?pcm = "replicate 2147483648 (0 :: 16 word)"
  let ?p40 = "map (of_nat \<circ> of_char) ''RIFF'' @ le32 (36 + length ?pcm * 2)
        @ map (of_nat \<circ> of_char) ''WAVE'' @ map (of_nat \<circ> of_char) ''fmt ''
        @ le32 16 @ le16 1 @ le16 1 @ le32 16000
        @ le32 (16000 * (1 * 2)) @ le16 (1 * 2) @ le16 16
        @ map (of_nat \<circ> of_char) ''data''"
  have l40: "length ?p40 = 40" by (simp add: le32_def le16_def)
  have "pcm16ToWavBlob ?pcm 16000 1
          = Some (?p40 @ le32 (length ?pcm * 2) @ concat (map (\<lambda>w. le16 (unat w)) ?pcm))"
    using wav_blob_bytes [of ?pcm 16000 1] by simp
  moreover have "getUint32 40 (?p40 @ le32 (length ?pcm * 2)
                   @ concat (map (\<lambda>w. le16 (unat w)) ?pcm)) = 0"
    using getUint32_at [OF l40, of "length ?pcm * 2"] by simp
  ultimately show ?thesis by simp
qed

section \<open>Clipping\<close>

text \<open>\<open>floatTo16BitPCM\<close> writes the little-endian bytes of the samples of \<open>floatToInt16\<close>.\<close>

lemma floatTo16BitPCM_bytes:
  "floatTo16BitPCM float32 = Some (concat (map (\<lambda>w. le16 (unat w)) (floatToInt16 float32)))"
  using write_samples_at [of "replicate (length float32 * 2) 0" "floatToInt16 float32" "[]"]
  by (simp add: floatTo16BitPCM_def floatToInt16_def Let_def)

text \<open>
  Claim C4. \<open>floatToInt16\<close> clips instead of overflowing: for every input sample (finite,
  infinite or NaN) the integer stored in the \<open>Int16Array\<close> is exactly the truncated scaled
  value, so the modulo reduction of the typed-array store never takes effect; the stored sample
  lies in \<open>[-32768, 32767]\<close>; an input below \<open>-1\<close> is stored as \<open>-32768\<close> and an input
  above \<open>1\<close> as \<open>32767\<close>. \<open>floatTo16BitPCM\<close> stores the same sample, as two bytes.
\<close>

theorem floatToInt16_clips:
  assumes "i < length float32"
  shows "sint (floatToInt16 float32 ! i) = js_trunc (scale_sample (float32 ! i))
       \<and> - 32768 \<le> sint (floatToInt16 float32 ! i)
       \<and> sint (floatToInt16 float32 ! i) \<le> 32767
       \<and> (js_less (float32 ! i) (Fin (- 1)) \<longrightarrow> sint (floatToInt16 float32 ! i) = - 32768)
       \<and> (js_less (Fin 1) (float32 ! i) \<longrightarrow> sint (floatToInt16 float32 ! i) = 32767)
       \<and> map_option (getInt16 (2 * i)) (floatTo16BitPCM float32) = Some (floatToInt16 float32 ! i)"
proof -
  let ?x = "float32 ! i"
  have r: "- 32768 \<le> js_trunc (scale_sample ?x)" "js_trunc (scale_sample ?x) \<le> 32767"
    using js_trunc_scale_range [of ?x] by simp_all
  have e: "sint (floatToInt16 float32 ! i) = js_trunc (scale_sample ?x)"
    using assms r by (simp add: floatToInt16_def sint_ToInt16)
  have lo: "js_less ?x (Fin (- 1)) \<longrightarrow> js_trunc (scale_sample ?x) = - 32768"
    by (auto simp: scale_sample_below)
  have hi: "js_less (Fin 1) ?x \<longrightarrow> js_trunc (scale_sample ?x) = 32767"
    by (auto simp: scale_sample_above)
  have "i < length (floatToInt16 float32)"
    using assms by (simp add: length_floatToInt16)
  then have b: "map_option (getInt16 (2 * i)) (floatTo16BitPCM float32)
                  = Some (floatToInt16 float32 ! i)"
    unfolding floatTo16BitPCM_bytes by (simp add: getInt16_samples)
  show ?thesis using e r lo hi b by simp
qed

theorem floatToInt16_clips_witness:
  "sint (floatToInt16 [Fin (- 3), Fin 2] ! 0) = - 32768
   \<and> sint (floatToInt16 [Fin (- 3), Fin 2] ! 1) = 32767
   \<and> floatToInt16 [Fin (- 3), Fin 2, NaN, Fin (1 / 2), NegInf] = [- 32768, 32767, 0, 16383, - 32768]"
  using floatToInt16_clips [of 0 "[Fin (- 3), Fin 2]"]
    floatToInt16_clips [of 1 "[Fin (- 3), Fin 2]"]
  by (simp add: floatToInt16_def scale_sample_def ToInt16_def)

section \<open>Properties of \<open>downsampleBuffer\<close>\<close>








section \<open>Properties of the smoothing\<close>

lemma smooth_fixed: "smooth \<alpha> raw raw = raw"
  by (simp add: smooth_def algebra_simps)

lemma smooth_stream_constant_from:
  "smooth_stream \<alpha> (Some raw) (replicate n raw) = replicate n raw"
  by (induction n) (simp_all add: smooth_fixed)

lemma smooth_stream_constant:
  "smooth_stream \<alpha> None (replicate n raw) = replicate n raw"
  by (cases n) (simp_all add: smooth_stream_constant_from)

text \<open>From any earlier state, a constant raw score is approached geometrically.\<close>

lemma smooth_stream_geometric:
  "k < n \<Longrightarrow>
   smooth_stream \<alpha> (Some prior) (replicate n raw) ! k = raw + (1 - \<alpha>) ^ (k + 1) * (prior - raw)"
proof (induction n arbitrary: k prior)
  case 0
  then show ?case by simp
next
  case (Suc n)
  show ?case
  proof (cases k)
    case 0
    then show ?thesis by (simp add: smooth_def algebra_simps)
  next
    case (Suc j)
    then have "j < n" using Suc.prems by simp
    then have "smooth_stream \<alpha> (Some (smooth \<alpha> raw prior)) (replicate n raw) ! j
                 = raw + (1 - \<alpha>) ^ (j + 1) * (smooth \<alpha> raw prior - raw)"
      by (rule Suc.IH)
    also have "smooth \<alpha> raw prior - raw = (1 - \<alpha>) * (prior - raw)"
      by (simp add: smooth_def algebra_simps)
    finally show ?thesis using Suc by simp
  qed
qed

lemma smooth_between:
  assumes "0 \<le> \<alpha>" "\<alpha> \<le> 1" "0 \<le> raw" "raw \<le> 100" "0 \<le> prior" "prior \<le> 100"
  shows "0 \<le> smooth \<alpha> raw prior \<and> smooth \<alpha> raw prior \<le> 100"
proof -
  have lo: "0 \<le> \<alpha> * raw" "0 \<le> (1 - \<alpha>) * prior"
    using assms by simp_all
  have "\<alpha> * raw \<le> \<alpha> * 100"
    using assms mult_left_mono [of raw 100 \<alpha>] by simp
  moreover have "(1 - \<alpha>) * prior \<le> (1 - \<alpha>) * 100"
    using assms mult_left_mono [of prior 100 "1 - \<alpha>"] by simp
  moreover have "\<alpha> * 100 + (1 - \<alpha>) * 100 = 100"
    by (simp add: algebra_simps)
  ultimately have "\<alpha> * raw + (1 - \<alpha>) * prior \<le> 100"
    by linarith
  then show ?thesis using lo unfolding smooth_def by simp
qed

text \<open>
  Claim C6. The smoothing is \<open>smoothed = \<alpha> * raw + (1 - \<alpha>) * prior_smoothed\<close>, and the
  first smoothed score of a stream is its first raw score. Under a constant stream of a raw
  score in \<open>[0, 100]\<close> every smoothed score equals the raw score, whatever \<open>\<alpha>\<close> is, and so
  lies in \<open>[0, 100]\<close>. If the raw score becomes constant only later, when the state holds
  some earlier value in \<open>[0, 100]\<close>, then for \<open>0 < \<alpha> \<le> 1\<close> the smoothed scores stay in
  \<open>[0, 100]\<close> and converge to the raw score.
\<close>

theorem smoothing_constant:
  "smooth \<alpha> raw prior = \<alpha> * raw + (1 - \<alpha>) * prior
   \<and> smooth_stream \<alpha> None (raw # raws) ! 0 = raw
   \<and> smooth_stream \<alpha> None (replicate n raw) = replicate n raw
   \<and> (0 \<le> raw \<and> raw \<le> 100 \<longrightarrow>
        (\<forall>s \<in> set (smooth_stream \<alpha> None (replicate n raw)). 0 \<le> s \<and> s \<le> 100))
   \<and> (0 < \<alpha> \<and> \<alpha> \<le> 1 \<and> 0 \<le> raw \<and> raw \<le> 100 \<and> 0 \<le> prior \<and> prior \<le> 100 \<longrightarrow>
        (\<forall>s \<in> set (smooth_stream \<alpha> (Some prior) (replicate n raw)). 0 \<le> s \<and> s \<le> 100)
        \<and> (\<lambda>k. smooth_stream \<alpha> (Some prior) (replicate (k + 1) raw) ! k) \<longlonglongrightarrow> raw)"
proof -
  have c: "smooth_stream \<alpha> None (replicate n raw) = replicate n raw"
    by (rule smooth_stream_constant)
  have bounded: "\<forall>s \<in> set (smooth_stream \<alpha> (Some prior) (replicate n raw)). 0 \<le> s \<and> s \<le> 100"
    if a: "0 \<le> \<alpha>" "\<alpha> \<le> 1" and r: "0 \<le> raw" "raw \<le> 100" and p: "0 \<le> prior" "prior \<le> 100"
    using p
  proof (induction n arbitrary: prior)
    case 0
    then show ?case by simp
  next
    case (Suc n)
    have s: "0 \<le> smooth \<alpha> raw prior \<and> smooth \<alpha> raw prior \<le> 100"
      using a r Suc.prems by (intro smooth_between) simp_all
    then show ?case using Suc.IH [of "smooth \<alpha> raw prior"] by simp
  qed
  have conv: "(\<lambda>k. smooth_stream \<alpha> (Some prior) (replicate (k + 1) raw) ! k) \<longlonglongrightarrow> raw"
    if a: "0 < \<alpha>" "\<alpha> \<le> 1"
  proof -
    have "norm (1 - \<alpha>) < 1" using a by simp
    then have "(\<lambda>k. (1 - \<alpha>) ^ k) \<longlonglongrightarrow> 0" by (rule LIMSEQ_power_zero)
    then have "(\<lambda>k. (1 - \<alpha>) ^ (k + 1)) \<longlonglongrightarrow> 0"
      by (rule LIMSEQ_ignore_initial_segment)
    then have "(\<lambda>k. raw + (1 - \<alpha>) ^ (k + 1) * (prior - raw)) \<longlonglongrightarrow> raw + 0 * (prior - raw)"
      by (intro tendsto_intros)
    then have lim: "(\<lambda>k. raw + (1 - \<alpha>) ^ (k + 1) * (prior - raw)) \<longlonglongrightarrow> raw"
      by simp
    have eq: "\<And>k. smooth_stream \<alpha> (Some prior) (replicate (k + 1) raw) ! k
                   = raw + (1 - \<alpha>) ^ (k + 1) * (prior - raw)"
      by (rule smooth_stream_geometric) simp
    show ?thesis unfolding eq by (rule lim)
  qed
  show ?thesis
    using c bounded conv by (simp add: smooth_def)
qed

text \<open>With the default \<open>\<alpha> = 0.7\<close>: a constant stream of 80, and a step from 20 to 80.\<close>

theorem smoothing_constant_witness:
  "smooth_stream (7 / 10) None [80, 80, 80] = [80, 80, 80]
   \<and> smooth_stream (7 / 10) (Some 20) [80, 80] = [62, 746 / 10]
   \<and> (\<lambda>k. smooth_stream (7 / 10) (Some 20) (replicate (k + 1) 80) ! k) \<longlonglongrightarrow> 80"
  using smoothing_constant [of "7 / 10" 80 20 "[]" 3]
  by (simp add: smooth_def numeral_eq_Suc)

end
